theory Spec2Isabelle
  imports Main "HOL-Library.Word"
begin

section \<open>Strings\<close>

text \<open>
  Go strings are byte sequences; \<^typ>\<open>string\<close> (a list of 8-bit characters) models them
  byte for byte. \<open>strings.HasPrefix\<close>:
\<close>

fun HasPrefix :: "string \<Rightarrow> string \<Rightarrow> bool" where
  "HasPrefix s [] = True"
| "HasPrefix [] (p # ps) = False"
| "HasPrefix (c # cs) (p # ps) = (c = p \<and> HasPrefix cs ps)"

text \<open>
  \<open>strings.TrimSpace\<close> removes leading and trailing white space as \<open>unicode.IsSpace\<close>
  defines it. The string is UTF-8, so a white-space rune is one of the byte sequences
  below: the six ASCII ones, U+0085, U+00A0, U+1680, U+2000 to U+200A, U+2028, U+2029,
  U+202F, U+205F and U+3000. A byte sequence that is not valid UTF-8 decodes to U+FFFD,
  which is not white space, so only these exact encodings are removed.
\<close>

definition spaceRunes :: "string list" where
  "spaceRunes =
    [[CHR 0x09], [CHR 0x0A], [CHR 0x0B], [CHR 0x0C], [CHR 0x0D], [CHR 0x20],
     [CHR 0xC2, CHR 0x85], [CHR 0xC2, CHR 0xA0],
     [CHR 0xE1, CHR 0x9A, CHR 0x80],
     [CHR 0xE2, CHR 0x80, CHR 0x80], [CHR 0xE2, CHR 0x80, CHR 0x81],
     [CHR 0xE2, CHR 0x80, CHR 0x82], [CHR 0xE2, CHR 0x80, CHR 0x83],
     [CHR 0xE2, CHR 0x80, CHR 0x84], [CHR 0xE2, CHR 0x80, CHR 0x85],
     [CHR 0xE2, CHR 0x80, CHR 0x86], [CHR 0xE2, CHR 0x80, CHR 0x87],
     [CHR 0xE2, CHR 0x80, CHR 0x88], [CHR 0xE2, CHR 0x80, CHR 0x89],
     [CHR 0xE2, CHR 0x80, CHR 0x8A],
     [CHR 0xE2, CHR 0x80, CHR 0xA8], [CHR 0xE2, CHR 0x80, CHR 0xA9],
     [CHR 0xE2, CHR 0x80, CHR 0xAF],
     [CHR 0xE2, CHR 0x81, CHR 0x9F],
     [CHR 0xE3, CHR 0x80, CHR 0x80]]"

text \<open>
  Removing runes of a given set of encodings from the front, one at a time, as the
  library's loop over the decoded runes does.
\<close>

lemma HasPrefix_length: "HasPrefix s e \<Longrightarrow> length e \<le> length s"
  by (induction s e rule: HasPrefix.induct) auto

definition leadingRune :: "string list \<Rightarrow> string \<Rightarrow> string option" where
  "leadingRune es s = find (\<lambda>e. e \<noteq> [] \<and> HasPrefix s e) es"

lemma leadingRune_Some:
  "leadingRune es s = Some e \<Longrightarrow> e \<in> set es \<and> e \<noteq> [] \<and> HasPrefix s e"
  by (auto simp: leadingRune_def find_Some_iff)

function stripLeading :: "string list \<Rightarrow> string \<Rightarrow> string" where
  "stripLeading es s =
     (case leadingRune es s of
        None \<Rightarrow> s
      | Some e \<Rightarrow> stripLeading es (drop (length e) s))"
  by pat_completeness auto
termination
proof (relation "measure (\<lambda>(es, s). length s)")
  show "wf (measure (\<lambda>(es, s). length s))" by simp
next
  fix es :: "string list" and s e :: string
  assume "leadingRune es s = Some e"
  then have "e \<noteq> []" and "HasPrefix s e"
    by (auto dest: leadingRune_Some)
  then have "length (drop (length e) s) < length s"
    using HasPrefix_length [of s e] by (cases e) auto
  then show "((es, drop (length e) s), (es, s)) \<in> measure (\<lambda>(es, s). length s)"
    by simp
qed

declare stripLeading.simps [simp del]

text \<open>
  Leading white space is removed first, then trailing white space: from the back, a
  rune is white space exactly when the text ends in one of the encodings.
\<close>

definition TrimLeft :: "string \<Rightarrow> string" where
  "TrimLeft s = stripLeading spaceRunes s"

definition TrimRight :: "string \<Rightarrow> string" where
  "TrimRight s = rev (stripLeading (map rev spaceRunes) (rev s))"

definition TrimSpace :: "string \<Rightarrow> string" where
  "TrimSpace s = TrimRight (TrimLeft s)"

section \<open>The statement splitter\<close>

text \<open>
  The first loop of \<open>executeScript\<close> (main.go, lines 179 to 195): \<open>cs\<close> is
  \<open>script[i:]\<close>, \<open>sb\<close> the string builder, \<open>stmts\<close> the slice of flushed
  statements. The final value of \<open>inDollar\<close> is returned with them.
\<close>

fun scan :: "string \<Rightarrow> bool \<Rightarrow> string \<Rightarrow> string list \<Rightarrow> string list \<times> string \<times> bool" where
  "scan [] inDollar sb stmts = (stmts, sb, inDollar)"
| "scan (c # cs) inDollar sb stmts =
     (if HasPrefix (c # cs) ''$$''
      then scan (drop 1 cs) (\<not> inDollar) (sb @ ''$$'') stmts
      else if c = CHR '';'' \<and> \<not> inDollar
           then scan cs inDollar [] (stmts @ [sb @ [c]])
           else scan cs inDollar (sb @ [c]) stmts)"

text \<open>
  The slice \<open>stmts\<close> after the final flush of lines 196 to 198.
\<close>

definition split_stmts :: "string \<Rightarrow> string list" where
  "split_stmts script =
     (case scan script False [] [] of
        (stmts, sb, inDollar) \<Rightarrow>
          (let s = TrimSpace sb in if s \<noteq> [] then stmts @ [s] else stmts))"

text \<open>
  The statements the second loop works on: each element of \<open>stmts\<close> trimmed, the empty
  ones skipped (lines 201 to 205).
\<close>

definition split :: "string \<Rightarrow> string list" where
  "split script = filter (\<lambda>stmt. stmt \<noteq> []) (map TrimSpace (split_stmts script))"

text \<open>
  Two notions the properties of the splitter are stated with. A text has no verbatim
  marker when \<open>$$\<close> occurs nowhere in it; the markers of a text are counted from the
  left without overlap, as \<open>strings.Count\<close> would count them.
\<close>

fun noMarker :: "string \<Rightarrow> bool" where
  "noMarker (c # d # cs) = (\<not> (c = CHR ''$'' \<and> d = CHR ''$'') \<and> noMarker (d # cs))"
| "noMarker cs = True"

fun countMarkers :: "string \<Rightarrow> nat" where
  "countMarkers (c # d # cs) =
     (if c = CHR ''$'' \<and> d = CHR ''$'' then Suc (countMarkers cs) else countMarkers (d # cs))"
| "countMarkers cs = 0"

section \<open>Classification\<close>

text \<open>
  \<open>selectRe\<close> is \<open>regexp.MustCompile(`(?i)^\s*SELECT`)\<close>. In Go's regexp syntax
  \<open>\s\<close> is the class \<open>[\t\n\f\r ]\<close> (no vertical tab), and under \<open>(?i)\<close> a letter
  of the pattern matches every rune of its simple case-folding orbit: for \<open>S\<close> these
  are \<open>S\<close>, \<open>s\<close> and U+017F (bytes C5 BF), for the other letters the two cases.
\<close>

definition reSpace :: "char \<Rightarrow> bool" where
  "reSpace c \<longleftrightarrow> c \<in> set [CHR 0x09, CHR 0x0A, CHR 0x0C, CHR 0x0D, CHR 0x20]"

definition foldSELECT :: "string list list" where
  "foldSELECT =
    [[''S'', ''s'', [CHR 0xC5, CHR 0xBF]], [''E'', ''e''], [''L'', ''l''],
     [''E'', ''e''], [''C'', ''c''], [''T'', ''t'']]"

fun matchFold :: "string list list \<Rightarrow> string \<Rightarrow> bool" where
  "matchFold [] s = True"
| "matchFold (alts # rest) s =
     list_ex (\<lambda>a. HasPrefix s a \<and> matchFold rest (drop (length a) s)) alts"

definition selectRe :: "string \<Rightarrow> bool" where
  "selectRe stmt = matchFold foldSELECT (dropWhile reSpace stmt)"

section \<open>The database, as the program sees it\<close>

type_synonym err = string

record DBConfig =
  Name :: string
  Host :: string
  Port :: int
  User :: string
  Password :: string
  DBName :: string
  SSLMode :: string

text \<open>
  Every call the program makes on the driver, and every line it prints, is an event. The
  history of events is the state of the outside world: what a call returns may depend on
  all that happened before it.
\<close>

datatype event =
    EvOpen DBConfig
  | EvBegin
  | EvQuery string
  | EvExec string
  | EvCommit
  | EvRollback
  | EvPrintln string

text \<open>
  A row as \<open>rows.Scan\<close> leaves it: the values written into \<open>vals\<close> (\<open>None\<close> is
  Go's \<open>nil\<close>) and the error of the call.
\<close>

record 'v scanned =
  vals :: "'v option list"
  scanErr :: "err option"

record 'v sqlRows =
  Columns :: "string list"
  Next :: "'v scanned list"

record sqlResult =
  LastInsertId :: "err + 64 word"
  RowsAffected :: "err + 64 word"

record 'v driver =
  sqlOpen :: "event list \<Rightarrow> DBConfig \<Rightarrow> err option"
  dbBegin :: "event list \<Rightarrow> err option"
  txQuery :: "event list \<Rightarrow> string \<Rightarrow> err + 'v sqlRows"
  txExec :: "event list \<Rightarrow> string \<Rightarrow> err + sqlResult"
  txCommit :: "event list \<Rightarrow> err option"
  txRollback :: "event list \<Rightarrow> err option"

section \<open>The script executor\<close>

text \<open>
  The dynamic value \<open>data\<close> of a \<open>QueryResult\<close>: \<open>nil\<close>, a slice of rows (each a map
  from column name to value, here an association list), a map from a string to an
  \<open>int64\<close>, or a string.
\<close>

type_synonym 'v row = "(string \<times> 'v option) list"

datatype 'v data =
    NoData
  | RowSet "'v row list"
  | IntMap "(string \<times> 64 word) list"
  | Text string

record 'v QueryResult =
  Stmt :: string
  Data :: "'v data"

text \<open>
  \<open>vals\<close> is made with one slot for each column; \<open>row[col] = vals[i]\<close> for each column
  in order, a later column of the same name overwriting an earlier one.
\<close>

definition slots :: "string list \<Rightarrow> 'v option list \<Rightarrow> 'v option list" where
  "slots cols vs = take (length cols) (vs @ replicate (length cols) None)"

fun put :: "string \<Rightarrow> 'v option \<Rightarrow> 'v row \<Rightarrow> 'v row" where
  "put col v [] = [(col, v)]"
| "put col v ((k, w) # m) = (if k = col then (k, v) # m else (k, w) # put col v m)"

definition mkRow :: "string list \<Rightarrow> 'v option list \<Rightarrow> 'v row" where
  "mkRow cols vs = fold (\<lambda>(col, v) m. put col v m) (zip cols vs) []"

text \<open>
  The loop over \<open>rows.Next()\<close> (lines 214 to 232). The accumulator is the local
  \<open>data\<close>: \<open>None\<close> while it is \<open>nil\<close>, the slice once the first row made it.
\<close>

fun scanRows ::
  "string list \<Rightarrow> 'v scanned list \<Rightarrow> 'v row list option \<Rightarrow> event list
    \<Rightarrow> 'v row list option \<times> event list" where
  "scanRows cols [] acc tr = (acc, tr)"
| "scanRows cols (r # rs) acc tr =
     (let tr' = (case scanErr r of
                   Some e \<Rightarrow> tr @ [EvPrintln (''rows scan error: '' @ e)]
                 | None \<Rightarrow> tr);
          row = mkRow cols (slots cols (vals r))
      in scanRows cols rs
           (case acc of None \<Rightarrow> Some [row] | Some xs \<Rightarrow> Some (xs @ [row])) tr')"

text \<open>
  One statement (lines 206 to 248): the pair of \<open>err\<close> and \<open>data\<close> it leaves, as a sum,
  with the history after it.
\<close>

definition runStmt ::
  "'v driver \<Rightarrow> event list \<Rightarrow> string \<Rightarrow> (err + 'v data) \<times> event list" where
  "runStmt drv tr stmt =
     (if selectRe stmt then
        (case txQuery drv tr stmt of
           Inl qErr \<Rightarrow> (Inl qErr, tr @ [EvQuery stmt])
         | Inr rows \<Rightarrow>
             (case scanRows (Columns rows) (Next rows) None (tr @ [EvQuery stmt]) of
                (acc, tr') \<Rightarrow>
                  (Inr (case acc of None \<Rightarrow> NoData | Some xs \<Rightarrow> RowSet xs), tr')))
      else
        (case txExec drv tr stmt of
           Inl xErr \<Rightarrow> (Inl xErr, tr @ [EvExec stmt])
         | Inr res \<Rightarrow>
             (Inr (case LastInsertId res of
                     Inr ident \<Rightarrow> IntMap [(''lastInsertId'', ident)]
                   | Inl e \<Rightarrow>
                       (case RowsAffected res of
                          Inr cnt \<Rightarrow> IntMap [(''rowsAffected'', cnt)]
                        | Inl e' \<Rightarrow> Text ''executed'')),
              tr @ [EvExec stmt])))"

text \<open>The loop over \<open>stmts\<close> (lines 201 to 254).\<close>

fun execLoop ::
  "'v driver \<Rightarrow> event list \<Rightarrow> string list \<Rightarrow> 'v QueryResult list
    \<Rightarrow> ('v QueryResult list \<times> err option) \<times> event list" where
  "execLoop drv tr [] results = ((results, None), tr)"
| "execLoop drv tr (s # rest) results =
     (let stmt = TrimSpace s in
      if stmt = [] then execLoop drv tr rest results
      else (case runStmt drv tr stmt of
              (Inl e, tr') \<Rightarrow> ((results, Some e), tr')
            | (Inr d, tr') \<Rightarrow>
                execLoop drv tr' rest (results @ [\<lparr>Stmt = stmt, Data = d\<rparr>])))"

definition executeScript ::
  "'v driver \<Rightarrow> event list \<Rightarrow> string
    \<Rightarrow> ('v QueryResult list \<times> err option) \<times> event list" where
  "executeScript drv tr script = execLoop drv tr (split_stmts script) []"

section \<open>One market, and the report\<close>

text \<open>
  The body of the loop over \<open>cfg.Markets\<close> (lines 61 to 118). \<open>marketSQLs\<close> is the map
  \<open>parseMarketSQL\<close> returned, \<open>marshal\<close> is \<open>json.Marshal\<close>; the connection string is
  a function of the market's configuration, which the driver is given whole.
\<close>

definition lookupSQL :: "(string \<rightharpoonup> string) \<Rightarrow> string \<Rightarrow> string option" where
  "lookupSQL marketSQLs name =
     (case marketSQLs name of Some t \<Rightarrow> Some t | None \<Rightarrow> marketSQLs ''ALL'')"

definition resultRow ::
  "('v data \<Rightarrow> err + string) \<Rightarrow> DBConfig \<Rightarrow> 'v QueryResult \<Rightarrow> string list" where
  "resultRow marshal m qr =
     [Name m, Stmt qr,
      (case marshal (Data qr) of
         Inr j \<Rightarrow> j
       | Inl e \<Rightarrow> [CHR 0x22] @ ''json error: '' @ e @ [CHR 0x22])]"

definition runMarket ::
  "'v driver \<Rightarrow> ('v data \<Rightarrow> err + string) \<Rightarrow> bool \<Rightarrow> (string \<rightharpoonup> string)
    \<Rightarrow> string list list \<times> event list \<Rightarrow> DBConfig \<Rightarrow> string list list \<times> event list" where
  "runMarket drv marshal commitFlag marketSQLs st m =
     (case st of (tableData, tr) \<Rightarrow>
      (case lookupSQL marketSQLs (Name m) of
         None \<Rightarrow> (tableData @ [[Name m, [], ''no SQL defined for this market'']], tr)
       | Some sqlText \<Rightarrow>
          (case sqlOpen drv tr m of
             Some e \<Rightarrow> (tableData @ [[Name m, [], ''connect error: '' @ e]], tr @ [EvOpen m])
           | None \<Rightarrow>
              (case dbBegin drv (tr @ [EvOpen m]) of
                 Some e \<Rightarrow>
                   (tableData @ [[Name m, [], ''begin error: '' @ e]], tr @ [EvOpen m, EvBegin])
               | None \<Rightarrow>
                  (case executeScript drv (tr @ [EvOpen m, EvBegin]) sqlText of
                     ((results, Some execErr), tr') \<Rightarrow>
                       (let msg = ''exec error: '' @ execErr;
                            msg' = (case txRollback drv tr' of
                                      Some rbErr \<Rightarrow> msg @ ''; rollback error: '' @ rbErr
                                    | None \<Rightarrow> msg)
                        in (tableData @ [[Name m, [], msg']], tr' @ [EvRollback]))
                   | ((results, None), tr') \<Rightarrow>
                       (if commitFlag then
                          (case txCommit drv tr' of
                             Some cmErr \<Rightarrow>
                               (tableData @ [[Name m, [], ''commit error: '' @ cmErr]],
                                tr' @ [EvCommit])
                           | None \<Rightarrow>
                               (tableData @ map (resultRow marshal m) results,
                                tr' @ [EvCommit]))
                        else
                          (case txRollback drv tr' of
                             Some rbErr \<Rightarrow>
                               (tableData @ [[Name m, [], ''rollback error: '' @ rbErr]],
                                tr' @ [EvRollback])
                           | None \<Rightarrow>
                               (tableData @ map (resultRow marshal m) results,
                                tr' @ [EvRollback]))))))))"


section \<open>Notions the properties are stated with\<close>

text \<open>
  Events that end a transaction, events that are a printed line, and the lines the row
  loop prints for the scan errors of the rows it is given.
\<close>

definition txEnd :: "event \<Rightarrow> bool" where
  "txEnd ev \<longleftrightarrow> ev = EvCommit \<or> ev = EvRollback"

definition printed :: "event \<Rightarrow> bool" where
  "printed ev \<longleftrightarrow> (case ev of EvPrintln msg \<Rightarrow> True | _ \<Rightarrow> False)"

definition scanReports :: "'v scanned list \<Rightarrow> event list" where
  "scanReports rs =
     concat (map (\<lambda>r. case scanErr r of
                         None \<Rightarrow> []
                       | Some e \<Rightarrow> [EvPrintln (''rows scan error: '' @ e)]) rs)"


text \<open>
  Upper case of an ASCII letter, and a keyword that is \<open>SELECT\<close> up to case: its letters
  are those of \<open>SELECT\<close> in either case, the first one possibly written as U+017F, the
  third rune of the case-folding orbit of \<open>S\<close>.
\<close>

definition toUpperASCII :: "char \<Rightarrow> char" where
  "toUpperASCII c =
     (if 97 \<le> (of_char c :: nat) \<and> (of_char c :: nat) \<le> 122
      then char_of (of_char c - (32 :: nat)) else c)"

definition foldsToSELECT :: "string \<Rightarrow> bool" where
  "foldsToSELECT kw \<longleftrightarrow>
     map toUpperASCII kw = ''SELECT'' \<or>
     (take 2 kw = [CHR 0xC5, CHR 0xBF] \<and> map toUpperASCII (drop 2 kw) = ''ELECT'')"

text \<open>
  Whether a text, read from the left, ends in a dollar sign that belongs to no marker.
\<close>

fun dangling :: "string \<Rightarrow> bool" where
  "dangling (c # d # cs) =
     (if c = CHR ''$'' \<and> d = CHR ''$'' then dangling cs else dangling (d # cs))"
| "dangling [c] = (c = CHR ''$'')"
| "dangling [] = False"

text \<open>
  The invariant of the scan loop: the flushed statements, the buffer and the text still
  to read make up the script; \<open>inDollar\<close> is the parity of the markers read; so far every
  statement boundary has an even number of markers before it.
\<close>

definition scanInv :: "string \<Rightarrow> string \<Rightarrow> bool \<Rightarrow> string \<Rightarrow> string list \<Rightarrow> bool" where
  "scanInv script cs inDollar sb stmts \<longleftrightarrow>
     concat stmts @ sb @ cs = script \<and>
     inDollar = odd (countMarkers (concat stmts @ sb)) \<and>
     (dangling (concat stmts @ sb) \<longrightarrow> \<not> HasPrefix cs ''$'') \<and>
     (\<forall>k \<le> length stmts. even (countMarkers (concat (take k stmts))))"

section \<open>A driver to run the model on\<close>

text \<open>
  A small database for the concrete runs below: one query fails, one returns no rows,
  any other returns two rows, the second of which does not scan; an \<open>INSERT\<close> reports
  both an identifier and a count, an \<open>UPDATE\<close> a count only, a \<open>DROP\<close> neither, and
  a bare separator affects no row.
\<close>

definition demoRows :: "int sqlRows" where
  "demoRows =
     \<lparr>Columns = [''id'', ''qty''],
      Next = [\<lparr>vals = [Some 1, Some 10], scanErr = None\<rparr>,
              \<lparr>vals = [Some 2], scanErr = Some ''converting NULL to int is unsupported''\<rparr>]\<rparr>"

definition demoDriver :: "int driver" where
  "demoDriver =
     \<lparr>sqlOpen = (\<lambda>tr m. if Host m = [] then Some ''missing host'' else None),
      dbBegin = (\<lambda>tr. None),
      txQuery = (\<lambda>tr s.
         if s = ''SELECT * FROM missing;'' then Inl ''pq: relation missing does not exist''
         else if s = ''SELECT * FROM t WHERE false;'' then Inr \<lparr>Columns = [''id'', ''qty''], Next = []\<rparr>
         else Inr demoRows),
      txExec = (\<lambda>tr s.
         if HasPrefix s ''INSERT'' then Inr \<lparr>LastInsertId = Inr 7, RowsAffected = Inr 1\<rparr>
         else if HasPrefix s ''UPDATE''
              then Inr \<lparr>LastInsertId = Inl ''no LastInsertId available'', RowsAffected = Inr 3\<rparr>
         else if HasPrefix s ''DROP''
              then Inr \<lparr>LastInsertId = Inl ''no LastInsertId available'',
                        RowsAffected = Inl ''no RowsAffected available''\<rparr>
         else if s = '';''
              then Inr \<lparr>LastInsertId = Inl ''no LastInsertId available'', RowsAffected = Inr 0\<rparr>
         else Inl ''pq: syntax error''),
      txCommit = (\<lambda>tr. None),
      txRollback = (\<lambda>tr. None)\<rparr>"

definition demoMarshal :: "int data \<Rightarrow> err + string" where
  "demoMarshal d =
     (case d of
        NoData \<Rightarrow> Inr ''null''
      | RowSet rs \<Rightarrow> Inr ''[...]''
      | IntMap kv \<Rightarrow> Inr ''{...}''
      | Text t \<Rightarrow> Inr ([CHR 0x22] @ t @ [CHR 0x22]))"

definition demoMarket :: DBConfig where
  "demoMarket =
     \<lparr>Name = ''MY'', Host = ''db-my.example.com'', Port = 5432, User = ''username'',
      Password = ''password'', DBName = ''ezrx_my'', SSLMode = ''disable''\<rparr>"

section \<open>Facts about trimming\<close>

lemma HasPrefix_append: "HasPrefix s e \<Longrightarrow> HasPrefix (s @ t) e"
  by (induction s e rule: HasPrefix.induct) auto

lemma HasPrefix_snoc: "c \<notin> set e \<Longrightarrow> HasPrefix (s @ [c]) e \<Longrightarrow> HasPrefix s e"
  by (induction s e rule: HasPrefix.induct) auto


lemma HasPrefix_Cons_mem: "HasPrefix (c # s) e \<Longrightarrow> e \<noteq> [] \<Longrightarrow> c \<in> set e"
  by (cases e) auto

lemma leadingRune_snoc:
  assumes "\<forall>e \<in> set es. c \<notin> set e"
  shows "leadingRune es (s @ [c]) = leadingRune es s"
  unfolding leadingRune_def
  using assms by (intro find_cong) (auto dest: HasPrefix_snoc intro: HasPrefix_append)

lemma leadingRune_Cons:
  assumes "\<forall>e \<in> set es. c \<notin> set e"
  shows "leadingRune es (c # s) = None"
  unfolding leadingRune_def find_None_iff
  using assms by (auto dest: HasPrefix_Cons_mem)


lemma stripLeading_None: "leadingRune es s = None \<Longrightarrow> stripLeading es s = s"
  by (simp add: stripLeading.simps [of es s])

lemma stripLeading_snoc:
  assumes "\<forall>e \<in> set es. c \<notin> set e"
  shows "stripLeading es (s @ [c]) = stripLeading es s @ [c]"
  using assms
proof (induction es s rule: stripLeading.induct)
  case (1 es s)
  note notin = "1.prems"
  show ?case
  proof (cases "leadingRune es s")
    case None
    then have "leadingRune es (s @ [c]) = None"
      by (simp add: leadingRune_snoc [OF notin])
    with None show ?thesis
      by (simp add: stripLeading_None)
  next
    case (Some e)
    then have "HasPrefix s e" by (auto dest: leadingRune_Some)
    then have len: "length e \<le> length s" by (rule HasPrefix_length)
    from Some have "leadingRune es (s @ [c]) = Some e"
      by (simp add: leadingRune_snoc [OF notin])
    then have "stripLeading es (s @ [c]) = stripLeading es (drop (length e) s @ [c])"
      using len by (simp add: stripLeading.simps [of es "s @ [c]"])
    also have "\<dots> = stripLeading es (drop (length e) s) @ [c]"
      by (rule "1.IH" [OF Some notin])
    also have "\<dots> = stripLeading es s @ [c]"
      using Some by (simp add: stripLeading.simps [of es s])
    finally show ?thesis .
  qed
qed






lemma semicolon_not_space: "\<forall>e \<in> set spaceRunes. CHR '';'' \<notin> set e"
  by (simp add: spaceRunes_def)

lemma semicolon_not_space_rev: "\<forall>e \<in> set (map rev spaceRunes). CHR '';'' \<notin> set e"
  using semicolon_not_space by simp

lemma TrimSpace_terminated: "TrimSpace (s @ '';'') = TrimLeft s @ '';''"
proof -
  have "TrimLeft (s @ '';'') = TrimLeft s @ '';''"
    unfolding TrimLeft_def by (rule stripLeading_snoc [OF semicolon_not_space])
  moreover have "TrimRight (t @ '';'') = t @ '';''" for t
    by (simp add: TrimRight_def stripLeading_None leadingRune_Cons [OF semicolon_not_space_rev])
  ultimately show ?thesis by (simp add: TrimSpace_def)
qed

lemma TrimSpace_Nil: "TrimSpace [] = []"
  by (simp add: TrimSpace_def TrimLeft_def TrimRight_def stripLeading.simps leadingRune_def spaceRunes_def)


section \<open>Facts about the splitter\<close>

lemma scan_segment:
  "CHR '';'' \<notin> set S \<Longrightarrow> noMarker S \<Longrightarrow>
   scan (S @ CHR '';'' # rest) False sb stmts = scan rest False [] (stmts @ [sb @ S @ '';''])"
proof (induction S arbitrary: sb)
  case Nil
  then show ?case by simp
next
  case (Cons c cs)
  then show ?case by (cases cs) auto
qed


lemma scan_terminated:
  "\<forall>S \<in> set segs. CHR '';'' \<notin> set S \<and> noMarker S \<Longrightarrow>
   scan (concat (map (\<lambda>S. S @ '';'') segs) @ rest) False [] stmts
     = scan rest False [] (stmts @ map (\<lambda>S. S @ '';'') segs)"
proof (induction segs arbitrary: stmts)
  case Nil
  then show ?case by simp
next
  case (Cons S segs)
  then show ?case
    using scan_segment [of S "concat (map (\<lambda>S. S @ '';'') segs) @ rest" "[]" stmts]
    by simp
qed

lemma split_terminated:
  assumes "\<forall>S \<in> set segs. CHR '';'' \<notin> set S \<and> noMarker S"
  shows "split (concat (map (\<lambda>S. S @ '';'') segs)) = map (\<lambda>S. TrimLeft S @ '';'') segs"
proof -
  have "scan (concat (map (\<lambda>S. S @ '';'') segs) @ []) False [] []
          = scan [] False [] ([] @ map (\<lambda>S. S @ '';'') segs)"
    by (rule scan_terminated [OF assms])
  then have "split_stmts (concat (map (\<lambda>S. S @ '';'') segs)) = map (\<lambda>S. S @ '';'') segs"
    by (simp add: split_stmts_def TrimSpace_Nil)
  then show ?thesis
    by (simp add: split_def TrimSpace_terminated comp_def filter_map)
qed


lemma TrimLeft_Nil: "TrimLeft [] = []"
  by (simp add: TrimLeft_def stripLeading_None leadingRune_def spaceRunes_def)

lemma split_double_separator:
  assumes "CHR '';'' \<notin> set A" and "noMarker A" and "CHR '';'' \<notin> set B" and "noMarker B"
  shows "split (A @ '';;'' @ B @ '';'') = [TrimLeft A @ '';'', '';'', TrimLeft B @ '';'']"
proof -
  have segs: "\<forall>S \<in> set [A, [], B]. CHR '';'' \<notin> set S \<and> noMarker S"
    using assms by simp
  have "split (concat (map (\<lambda>S. S @ '';'') [A, [], B]))
          = map (\<lambda>S. TrimLeft S @ '';'') [A, [], B]"
    by (rule split_terminated [OF segs])
  then show ?thesis
    by (simp add: TrimLeft_Nil)
qed

subsection \<open>The scanner and the verbatim markers\<close>

lemma countMarkers_marker: "countMarkers (p @ ''$$'') = Suc (countMarkers p)"
  by (induction p rule: countMarkers.induct) auto

lemma dangling_marker: "dangling (p @ ''$$'') = dangling p"
  by (induction p rule: dangling.induct) auto

lemma countMarkers_plain: "c \<noteq> CHR ''$'' \<Longrightarrow> countMarkers (p @ [c]) = countMarkers p"
  by (induction p rule: countMarkers.induct) auto

lemma dangling_plain: "c \<noteq> CHR ''$'' \<Longrightarrow> \<not> dangling (p @ [c])"
  by (induction p rule: dangling.induct) auto

lemma countMarkers_dollar: "\<not> dangling p \<Longrightarrow> countMarkers (p @ ''$'') = countMarkers p"
  by (induction p rule: dangling.induct) auto

lemma scanInv_marker:
  assumes "scanInv script (c # cs) inD sb stmts" and "HasPrefix (c # cs) ''$$''"
  shows "scanInv script (drop 1 cs) (\<not> inD) (sb @ ''$$'') stmts"
proof -
  from assms(2) obtain cs' where cs: "c = CHR ''$''" "cs = CHR ''$'' # cs'"
    by (cases cs) auto
  from assms(1) cs have nd: "\<not> dangling (concat stmts @ sb)"
    by (auto simp: scanInv_def)
  have "countMarkers (concat stmts @ sb @ ''$$'') = Suc (countMarkers (concat stmts @ sb))"
    using countMarkers_marker [of "concat stmts @ sb"] by simp
  moreover have "dangling (concat stmts @ sb @ ''$$'') = dangling (concat stmts @ sb)"
    using dangling_marker [of "concat stmts @ sb"] by simp
  ultimately show ?thesis
    using assms(1) cs nd by (simp add: scanInv_def)
qed

lemma scanInv_flush:
  assumes "scanInv script (c # cs) inD sb stmts" and "\<not> HasPrefix (c # cs) ''$$''"
    and "c = CHR '';''" and "\<not> inD"
  shows "scanInv script cs inD [] (stmts @ [sb @ [c]])"
proof -
  have cm: "countMarkers (concat stmts @ sb @ [c]) = countMarkers (concat stmts @ sb)"
    using countMarkers_plain [of c "concat stmts @ sb"] assms(3) by simp
  have nd: "\<not> dangling (concat stmts @ sb @ [c])"
    using dangling_plain [of c "concat stmts @ sb"] assms(3) by simp
  have ev: "even (countMarkers (concat stmts @ sb))"
    using assms(1,4) by (simp add: scanInv_def)
  have "even (countMarkers (concat (take k (stmts @ [sb @ [c]]))))"
    if "k \<le> Suc (length stmts)" for k
  proof (cases "k \<le> length stmts")
    case True
    then show ?thesis using assms(1) by (simp add: scanInv_def)
  next
    case False
    with that have "k = Suc (length stmts)" by simp
    then show ?thesis using cm ev by simp
  qed
  then show ?thesis
    using assms(1,4) cm nd ev by (simp add: scanInv_def)
qed

lemma scanInv_plain:
  assumes "scanInv script (c # cs) inD sb stmts" and "\<not> HasPrefix (c # cs) ''$$''"
  shows "scanInv script cs inD (sb @ [c]) stmts"
proof (cases "c = CHR ''$''")
  case True
  with assms(2) have next_plain: "\<not> HasPrefix cs ''$''"
    by (cases cs) auto
  from assms(1) True have nd: "\<not> dangling (concat stmts @ sb)"
    by (auto simp: scanInv_def)
  have "countMarkers (concat stmts @ sb @ [c]) = countMarkers (concat stmts @ sb)"
    using countMarkers_dollar [OF nd] True by simp
  then show ?thesis
    using assms(1) next_plain by (simp add: scanInv_def)
next
  case False
  have "countMarkers (concat stmts @ sb @ [c]) = countMarkers (concat stmts @ sb)"
    using countMarkers_plain [OF False, of "concat stmts @ sb"] by simp
  moreover have "\<not> dangling (concat stmts @ sb @ [c])"
    using dangling_plain [OF False, of "concat stmts @ sb"] by simp
  ultimately show ?thesis
    using assms(1) by (simp add: scanInv_def)
qed

lemma scan_keeps_inv:
  "scanInv script cs inD sb stmts \<Longrightarrow> scan cs inD sb stmts = (S, sb', inD')
    \<Longrightarrow> scanInv script [] inD' sb' S"
proof (induction cs inD sb stmts rule: scan.induct)
  case (1 inDollar sb stmts)
  then show ?case by simp
next
  case (2 c cs inDollar sb stmts)
  show ?case
  proof (cases "HasPrefix (c # cs) ''$$''")
    case True
    then show ?thesis
      using "2.IH"(1) [OF True scanInv_marker [OF "2.prems"(1) True]] "2.prems"(2)
      by (simp del: HasPrefix.simps)
  next
    case notmarker: False
    show ?thesis
    proof (cases "c = CHR '';'' \<and> \<not> inDollar")
      case True
      then show ?thesis
        using "2.IH"(2) [OF notmarker True] scanInv_flush [OF "2.prems"(1) notmarker] "2.prems"(2) notmarker
        by (simp del: HasPrefix.simps)
    next
      case False
      then show ?thesis
        using "2.IH"(3) [OF notmarker False] scanInv_plain [OF "2.prems"(1) notmarker] "2.prems"(2) notmarker
        by (auto simp del: HasPrefix.simps)
    qed
  qed
qed

lemma scanInv_init: "scanInv script script False [] []"
  by (simp add: scanInv_def)

section \<open>Facts about the executor\<close>

lemma scanReports_printed: "ev \<in> set (scanReports rs) \<Longrightarrow> printed ev"
  by (auto simp: scanReports_def printed_def split: option.splits)

lemma scanRows_eq:
  "scanRows cols rs acc tr =
     (if rs = [] then acc
      else Some ((case acc of None \<Rightarrow> [] | Some xs \<Rightarrow> xs)
                 @ map (\<lambda>r. mkRow cols (slots cols (vals r))) rs),
      tr @ scanReports rs)"
proof (induction rs arbitrary: acc tr)
  case Nil
  then show ?case by (simp add: scanReports_def)
next
  case (Cons r rs)
  show ?case
    by (cases acc; cases "scanErr r") (simp_all add: Cons.IH scanReports_def Let_def)
qed

lemma runStmt_select:
  assumes "selectRe stmt" and "txQuery drv tr stmt = Inr rows"
  shows "runStmt drv tr stmt =
           (Inr (if Next rows = [] then NoData
                 else RowSet (map (\<lambda>r. mkRow (Columns rows) (slots (Columns rows) (vals r)))
                                  (Next rows))),
            tr @ [EvQuery stmt] @ scanReports (Next rows))"
  using assms by (simp add: runStmt_def scanRows_eq)

lemma runStmt_select_fail:
  assumes "selectRe stmt" and "txQuery drv tr stmt = Inl e"
  shows "runStmt drv tr stmt = (Inl e, tr @ [EvQuery stmt])"
  using assms by (simp add: runStmt_def)

lemma runStmt_exec_fail:
  assumes "\<not> selectRe stmt" and "txExec drv tr stmt = Inl e"
  shows "runStmt drv tr stmt = (Inl e, tr @ [EvExec stmt])"
  using assms by (simp add: runStmt_def)

lemma runStmt_exec:
  assumes "\<not> selectRe stmt" and "txExec drv tr stmt = Inr res"
  shows "runStmt drv tr stmt =
           (Inr (case LastInsertId res of
                   Inr ident \<Rightarrow> IntMap [(''lastInsertId'', ident)]
                 | Inl e \<Rightarrow>
                     (case RowsAffected res of
                        Inr cnt \<Rightarrow> IntMap [(''rowsAffected'', cnt)]
                      | Inl e' \<Rightarrow> Text ''executed'')),
            tr @ [EvExec stmt])"
  using assms by (simp add: runStmt_def)

lemma runStmt_trace:
  "\<exists>out. snd (runStmt drv tr stmt) = tr @ (if selectRe stmt then EvQuery stmt else EvExec stmt) # out
         \<and> (\<forall>ev \<in> set out. printed ev)"
proof (cases "selectRe stmt")
  case True
  show ?thesis
  proof (cases "txQuery drv tr stmt")
    case (Inl e)
    with True show ?thesis by (simp add: runStmt_select_fail)
  next
    case (Inr rows)
    with True show ?thesis
      by (auto simp: runStmt_select dest: scanReports_printed)
  qed
next
  case False
  then show ?thesis
    by (cases "txExec drv tr stmt") (simp_all add: runStmt_exec_fail runStmt_exec)
qed

lemma runStmt_no_end:
  "\<exists>evs. snd (runStmt drv tr stmt) = tr @ evs \<and> (\<forall>ev \<in> set evs. \<not> txEnd ev)"
proof -
  obtain out where "snd (runStmt drv tr stmt)
      = tr @ (if selectRe stmt then EvQuery stmt else EvExec stmt) # out"
    and "\<forall>ev \<in> set out. printed ev"
    using runStmt_trace by blast
  then show ?thesis
    by (intro exI [of _ "(if selectRe stmt then EvQuery stmt else EvExec stmt) # out"])
       (auto simp: txEnd_def printed_def)
qed

lemma execLoop_no_end:
  "\<exists>evs. snd (execLoop drv tr stmts results) = tr @ evs \<and> (\<forall>ev \<in> set evs. \<not> txEnd ev)"
proof (induction stmts arbitrary: tr results)
  case Nil
  then show ?case by simp
next
  case (Cons s rest)
  show ?case
  proof (cases "TrimSpace s = []")
    case True
    then show ?thesis using Cons.IH by simp
  next
    case False
    obtain r tr' where run: "runStmt drv tr (TrimSpace s) = (r, tr')"
      by (cases "runStmt drv tr (TrimSpace s)")
    obtain evs where evs: "tr' = tr @ evs" "\<forall>ev \<in> set evs. \<not> txEnd ev"
      using runStmt_no_end [of drv tr "TrimSpace s"] run by auto
    show ?thesis
    proof (cases r)
      case (Inl e)
      with False run evs show ?thesis by auto
    next
      case (Inr d)
      obtain evs' where "snd (execLoop drv tr' rest (results @ [\<lparr>Stmt = TrimSpace s, Data = d\<rparr>]))
          = tr' @ evs'" and "\<forall>ev \<in> set evs'. \<not> txEnd ev"
        using Cons.IH by blast
      with False run evs Inr show ?thesis
        by (intro exI [of _ "evs @ evs'"]) auto
    qed
  qed
qed



section \<open>Facts about the run of a market\<close>









section \<open>Facts about the classification\<close>

lemma toUpperASCII_cases:
  assumes "toUpperASCII c = u"
  shows "c = u \<or> c = char_of (of_char u + (32 :: nat))"
proof (cases "97 \<le> (of_char c :: nat) \<and> (of_char c :: nat) \<le> 122")
  case True
  with assms have u: "u = char_of (of_char c - (32 :: nat))"
    by (simp add: toUpperASCII_def)
  have "(of_char c - 32 :: nat) < 256"
    using True by arith
  then have "(of_char c - 32 :: nat) mod 256 = of_char c - 32"
    by (rule mod_less)
  then have "(of_char u :: nat) = of_char c - 32"
    unfolding u by (simp add: of_char_of)
  then have "of_char u + (32 :: nat) = of_char c"
    using True by arith
  then have "char_of (of_char u + (32 :: nat)) = char_of (of_char c :: nat)"
    by simp
  then show ?thesis by simp
next
  case False
  with assms show ?thesis by (simp add: toUpperASCII_def)
qed

lemma lower_letters:
  "char_of (of_char (CHR ''S'') + (32 :: nat)) = CHR ''s''"
  "char_of (of_char (CHR ''E'') + (32 :: nat)) = CHR ''e''"
  "char_of (of_char (CHR ''L'') + (32 :: nat)) = CHR ''l''"
  "char_of (of_char (CHR ''C'') + (32 :: nat)) = CHR ''c''"
  "char_of (of_char (CHR ''T'') + (32 :: nat)) = CHR ''t''"
  by code_simp+

lemma HasPrefix_iff: "HasPrefix s e \<longleftrightarrow> (\<exists>rest. s = e @ rest)"
  by (induction s e rule: HasPrefix.induct) auto

lemma matchFold_step:
  "[c] \<in> set alts \<Longrightarrow> matchFold rest s \<Longrightarrow> matchFold (alts # rest) (c # s)"
  by (auto simp: list_ex_iff intro!: bexI [of _ "[c]"])

lemma upper_values:
  "toUpperASCII (CHR ''S'') = CHR ''S''" "toUpperASCII (CHR ''s'') = CHR ''S''"
  "toUpperASCII (CHR ''E'') = CHR ''E''" "toUpperASCII (CHR ''e'') = CHR ''E''"
  "toUpperASCII (CHR ''L'') = CHR ''L''" "toUpperASCII (CHR ''l'') = CHR ''L''"
  "toUpperASCII (CHR ''C'') = CHR ''C''" "toUpperASCII (CHR ''c'') = CHR ''C''"
  "toUpperASCII (CHR ''T'') = CHR ''T''" "toUpperASCII (CHR ''t'') = CHR ''T''"
  by code_simp+

lemma matchFold_upper:
  assumes "list_all2 (\<lambda>alt u. \<forall>a \<in> set alt. map toUpperASCII a = [u]) alts us"
    and "matchFold alts s"
  shows "\<exists>kw rest. s = kw @ rest \<and> map toUpperASCII kw = us"
  using assms
proof (induction alts us arbitrary: s rule: list_all2_induct)
  case Nil
  then show ?case by simp
next
  case (Cons alt alts u us)
  from Cons.prems obtain a where a: "a \<in> set alt" "HasPrefix s a"
    and m: "matchFold alts (drop (length a) s)"
    by (auto simp: list_ex_iff)
  from Cons.IH [OF m] obtain kw rest where kw: "drop (length a) s = kw @ rest"
    "map toUpperASCII kw = us"
    by blast
  from a(2) obtain t where t: "s = a @ t"
    by (auto simp: HasPrefix_iff)
  with kw(1) have "s = (a @ kw) @ rest"
    by simp
  moreover have "map toUpperASCII (a @ kw) = u # us"
    using Cons.hyps(1) a(1) kw(2) by simp
  ultimately show ?case
    by (intro exI [of _ "a @ kw"] exI [of _ rest] conjI)
qed

lemma tl_foldSELECT:
  "list_all2 (\<lambda>alt u. \<forall>a \<in> set alt. map toUpperASCII a = [u]) (tl foldSELECT) ''ELECT''"
  by (simp add: foldSELECT_def upper_values)

lemma foldsToSELECT_head:
  assumes "a \<in> set [''S'', ''s'', [CHR 0xC5, CHR 0xBF]]" and "map toUpperASCII k = ''ELECT''"
  shows "foldsToSELECT (a @ k)"
proof -
  from assms(1) consider "a = ''S''" | "a = ''s''" | "a = [CHR 0xC5, CHR 0xBF]"
    by auto
  then show ?thesis
  proof cases
    case 1
    with assms(2) show ?thesis by (simp add: foldsToSELECT_def upper_values)
  next
    case 2
    with assms(2) show ?thesis by (simp add: foldsToSELECT_def upper_values)
  next
    case 3
    with assms(2) show ?thesis by (simp add: foldsToSELECT_def)
  qed
qed

lemma selectRe_elim:
  assumes "selectRe stmt"
  shows "\<exists>ws kw rest. stmt = ws @ kw @ rest \<and> (\<forall>c \<in> set ws. reSpace c) \<and> foldsToSELECT kw"
proof -
  define r where "r = dropWhile reSpace stmt"
  from assms have "matchFold ([''S'', ''s'', [CHR 0xC5, CHR 0xBF]] # tl foldSELECT) r"
    by (simp only: selectRe_def r_def foldSELECT_def list.sel)
  then have "list_ex (\<lambda>a. HasPrefix r a \<and> matchFold (tl foldSELECT) (drop (length a) r))
               [''S'', ''s'', [CHR 0xC5, CHR 0xBF]]"
    by (simp only: matchFold.simps(2))
  then obtain a where a: "a \<in> set [''S'', ''s'', [CHR 0xC5, CHR 0xBF]]" "HasPrefix r a"
    and m: "matchFold (tl foldSELECT) (drop (length a) r)"
    unfolding list_ex_iff by (elim bexE conjE)
  from matchFold_upper [OF tl_foldSELECT m] obtain k rest where k: "drop (length a) r = k @ rest"
    "map toUpperASCII k = ''ELECT''"
    by (elim exE conjE)
  from a(2) obtain t where t: "r = a @ t"
    by (auto simp: HasPrefix_iff)
  with k(1) have "r = a @ k @ rest"
    by simp
  moreover have "stmt = takeWhile reSpace stmt @ r"
    by (simp add: r_def)
  ultimately have "stmt = takeWhile reSpace stmt @ (a @ k) @ rest"
    by simp
  moreover have "\<forall>c \<in> set (takeWhile reSpace stmt). reSpace c"
    by (auto dest: set_takeWhileD)
  moreover have "foldsToSELECT (a @ k)"
    by (rule foldsToSELECT_head [OF a(1) k(2)])
  ultimately show ?thesis
    by (intro exI [of _ "takeWhile reSpace stmt"] exI [of _ "a @ k"] exI [of _ rest] conjI)
qed

lemma matchFold_app:
  "a \<in> set alts \<Longrightarrow> matchFold rest s \<Longrightarrow> matchFold (alts # rest) (a @ s)"
  by (auto simp: list_ex_iff HasPrefix_iff intro!: bexI [of _ a])

lemma letter_cases:
  assumes "toUpperASCII k = u" and "char_of (of_char u + (32 :: nat)) = l"
  shows "k = u \<or> k = l"
  using toUpperASCII_cases [OF assms(1)] assms(2) by auto

lemma matchFold_ELECT:
  assumes "map toUpperASCII k' = ''ELECT''"
  shows "matchFold (tl foldSELECT) (k' @ rest)"
proof -
  from assms obtain k2 k3 k4 k5 k6 where k: "k' = [k2, k3, k4, k5, k6]"
    and u: "toUpperASCII k2 = CHR ''E''" "toUpperASCII k3 = CHR ''L''"
      "toUpperASCII k4 = CHR ''E''" "toUpperASCII k5 = CHR ''C''" "toUpperASCII k6 = CHR ''T''"
    by (auto simp: map_eq_Cons_conv)
  have "[k2] \<in> set [''E'', ''e'']" "[k3] \<in> set [''L'', ''l'']" "[k4] \<in> set [''E'', ''e'']"
    "[k5] \<in> set [''C'', ''c'']" "[k6] \<in> set [''T'', ''t'']"
    using letter_cases [OF u(1) lower_letters(2)] letter_cases [OF u(2) lower_letters(3)]
      letter_cases [OF u(3) lower_letters(2)] letter_cases [OF u(4) lower_letters(4)]
      letter_cases [OF u(5) lower_letters(5)]
    by simp_all
  then have "matchFold [[''E'', ''e''], [''L'', ''l''], [''E'', ''e''], [''C'', ''c''], [''T'', ''t'']]
               (k2 # k3 # k4 # k5 # k6 # rest)"
    by (intro matchFold_step) simp_all
  then show ?thesis
    unfolding k foldSELECT_def by simp
qed

lemma selectRe_intro:
  assumes "\<forall>c \<in> set ws. reSpace c" and "foldsToSELECT kw"
  shows "selectRe (ws @ kw @ rest)"
proof -
  have "\<exists>a k'. kw = a @ k' \<and> a \<in> set [''S'', ''s'', [CHR 0xC5, CHR 0xBF]]
          \<and> map toUpperASCII k' = ''ELECT''"
    using assms(2) unfolding foldsToSELECT_def
  proof
    assume "map toUpperASCII kw = ''SELECT''"
    then obtain k1 k' where k: "kw = [k1] @ k'" and u: "toUpperASCII k1 = CHR ''S''"
      and r: "map toUpperASCII k' = ''ELECT''"
      by (auto simp: map_eq_Cons_conv)
    have "[k1] \<in> set [''S'', ''s'', [CHR 0xC5, CHR 0xBF]]"
      using letter_cases [OF u lower_letters(1)] by auto
    with k r show ?thesis
      by (intro exI [of _ "[k1]"] exI [of _ k'] conjI)
  next
    assume a: "take 2 kw = [CHR 0xC5, CHR 0xBF] \<and> map toUpperASCII (drop 2 kw) = ''ELECT''"
    have "kw = take 2 kw @ drop 2 kw"
      by simp
    with a have "kw = [CHR 0xC5, CHR 0xBF] @ drop 2 kw"
      by simp
    moreover have "[CHR 0xC5, CHR 0xBF] \<in> set [''S'', ''s'', [CHR 0xC5, CHR 0xBF]]"
      by simp
    ultimately show ?thesis using a
      by (intro exI [of _ "[CHR 0xC5, CHR 0xBF]"] exI [of _ "drop 2 kw"] conjI) simp_all
  qed
  then obtain a k' where kw: "kw = a @ k'" and a: "a \<in> set [''S'', ''s'', [CHR 0xC5, CHR 0xBF]]"
    and k': "map toUpperASCII k' = ''ELECT''"
    by (elim exE conjE)
  have "matchFold ([''S'', ''s'', [CHR 0xC5, CHR 0xBF]] # tl foldSELECT) (a @ k' @ rest)"
    by (rule matchFold_app [OF a matchFold_ELECT [OF k']])
  then have m: "matchFold foldSELECT (kw @ rest)"
    by (simp only: foldSELECT_def list.sel kw append_assoc)
  from a obtain c cs where "a = c # cs" and "\<not> reSpace c"
    by (auto simp: reSpace_def)
  then have "dropWhile reSpace (kw @ rest) = kw @ rest"
    using kw by simp
  then have "dropWhile reSpace (ws @ kw @ rest) = kw @ rest"
    using assms(1) by (simp add: dropWhile_append2)
  with m show ?thesis
    by (simp add: selectRe_def)
qed

section \<open>The claims\<close>

text \<open>
  C1. A statement classified as row-producing whose query succeeds with zero rows
  should leave an explicit empty row-set. The code does not: the slice of rows is made
  inside the row loop, when the first row arrives, so with no row the outcome recorded
  is \<open>nil\<close> (\<open>null\<close> in the report, where the README promises a JSON array). Here is the
  run of the script \<open>SELECT * FROM t WHERE false;\<close> on a driver that returns no rows
  for it: one \<open>QueryResult\<close>, whose data is \<open>nil\<close>.
\<close>

theorem zero_rows_recorded_nil:
  "executeScript demoDriver [] ''SELECT * FROM t WHERE false;''
     = (([\<lparr>Stmt = ''SELECT * FROM t WHERE false;'', Data = NoData\<rparr>], None),
        [EvQuery ''SELECT * FROM t WHERE false;''])"
proof -
  have a: "split_stmts ''SELECT * FROM t WHERE false;'' = [''SELECT * FROM t WHERE false;'']"
    by code_simp
  have b: "TrimSpace ''SELECT * FROM t WHERE false;'' = ''SELECT * FROM t WHERE false;''"
    by code_simp
  have c: "selectRe ''SELECT * FROM t WHERE false;''"
    by code_simp
  have "runStmt demoDriver [] ''SELECT * FROM t WHERE false;''
          = (Inr NoData, [EvQuery ''SELECT * FROM t WHERE false;''])"
    using c by (simp add: runStmt_def demoDriver_def)
  then show ?thesis
    using a b by (simp add: executeScript_def Let_def)
qed

text \<open>
  C2. In a script of the form \<open>A;;B;\<close> the segment between the two separators should
  be dropped. The code does not drop it: the separator is written to the buffer before
  the flush, so the segment arrives as \<open>;\<close>, which the emptiness test of the statement
  loop lets through. The split of \<open>A;;B;\<close> has three elements, and in a run of such a
  script the bare separator is sent to the database and gets a result of its own.
\<close>

theorem empty_segment_executed:
  "split ''A;;B;'' = [''A;'', '';'', ''B;''] \<and>
   map Stmt (fst (fst (executeScript demoDriver [] ''UPDATE t SET qty = 0;;UPDATE t SET qty = 1;'')))
     = [''UPDATE t SET qty = 0;'', '';'', ''UPDATE t SET qty = 1;''] \<and>
   snd (executeScript demoDriver [] ''UPDATE t SET qty = 0;;UPDATE t SET qty = 1;'')
     = [EvExec ''UPDATE t SET qty = 0;'', EvExec '';'', EvExec ''UPDATE t SET qty = 1;'']"
proof -
  have a: "split ''A;;B;'' = [''A;'', '';'', ''B;'']"
    by code_simp
  have b: "split_stmts ''UPDATE t SET qty = 0;;UPDATE t SET qty = 1;''
     = [''UPDATE t SET qty = 0;'', '';'', ''UPDATE t SET qty = 1;'']"
    by code_simp
  have c: "TrimSpace ''UPDATE t SET qty = 0;'' = ''UPDATE t SET qty = 0;''"
    "TrimSpace '';'' = '';''" "TrimSpace ''UPDATE t SET qty = 1;'' = ''UPDATE t SET qty = 1;''"
    by code_simp+
  have d: "\<not> selectRe ''UPDATE t SET qty = 0;''" "\<not> selectRe '';''"
    "\<not> selectRe ''UPDATE t SET qty = 1;''"
    by code_simp+
  have "executeScript demoDriver [] ''UPDATE t SET qty = 0;;UPDATE t SET qty = 1;''
     = (([\<lparr>Stmt = ''UPDATE t SET qty = 0;'', Data = IntMap [(''rowsAffected'', 3)]\<rparr>,
          \<lparr>Stmt = '';'', Data = IntMap [(''rowsAffected'', 0)]\<rparr>,
          \<lparr>Stmt = ''UPDATE t SET qty = 1;'', Data = IntMap [(''rowsAffected'', 3)]\<rparr>], None),
        [EvExec ''UPDATE t SET qty = 0;'', EvExec '';'', EvExec ''UPDATE t SET qty = 1;''])"
    using b c d by (simp add: executeScript_def runStmt_def demoDriver_def Let_def)
  with a show ?thesis by simp
qed







text \<open>
  C5. For every script whose count of verbatim markers is even: the flushed statements
  and the rest of the buffer, put together, are the script; at every statement boundary
  the number of markers before it is even, so the boundary lies in no verbatim region
  and a separator after an odd number of markers ends no statement; and the scan ends
  outside a verbatim region. Splitting \<open>INSERT INTO t VALUES ($$a;b$$);\<close> yields one
  statement.
\<close>

theorem split_respects_verbatim:
  assumes "even (countMarkers script)" and "scan script False [] [] = (stmts, sb, inDollar)"
  shows "concat stmts @ sb = script \<and> \<not> inDollar \<and>
         (\<forall>k \<le> length stmts. even (countMarkers (concat (take k stmts)))) \<and>
         split_stmts script = stmts @ (if TrimSpace sb \<noteq> [] then [TrimSpace sb] else []) \<and>
         split ''INSERT INTO t VALUES ($$a;b$$);'' = [''INSERT INTO t VALUES ($$a;b$$);'']"
proof -
  have "scanInv script [] inDollar sb stmts"
    by (rule scan_keeps_inv [OF scanInv_init assms(2)])
  moreover have "split ''INSERT INTO t VALUES ($$a;b$$);'' = [''INSERT INTO t VALUES ($$a;b$$);'']"
    by code_simp
  moreover have "split_stmts script = stmts @ (if TrimSpace sb \<noteq> [] then [TrimSpace sb] else [])"
    using assms(2) by (simp add: split_stmts_def Let_def)
  ultimately show ?thesis
    using assms(1) by (auto simp: scanInv_def)
qed

theorem split_respects_verbatim_witness:
  "even (countMarkers ''DO $$a;b$$; SELECT 1;'') \<and>
   scan ''DO $$a;b$$; SELECT 1;'' False [] [] = ([''DO $$a;b$$;'', '' SELECT 1;''], [], False) \<and>
   even (countMarkers (concat (take 1 [''DO $$a;b$$;'', '' SELECT 1;'']))) \<and>
   split_stmts ''DO $$a;b$$; SELECT 1;'' = [''DO $$a;b$$;'', '' SELECT 1;'']"
proof -
  have a: "even (countMarkers ''DO $$a;b$$; SELECT 1;'')"
    by code_simp
  have b: "scan ''DO $$a;b$$; SELECT 1;'' False [] [] = ([''DO $$a;b$$;'', '' SELECT 1;''], [], False)"
    by code_simp
  have c: "TrimSpace [] = []"
    by (rule TrimSpace_Nil)
  from split_respects_verbatim [OF a b]
  have "\<forall>k \<le> length [''DO $$a;b$$;'', '' SELECT 1;''].
          even (countMarkers (concat (take k [''DO $$a;b$$;'', '' SELECT 1;''])))"
    and "split_stmts ''DO $$a;b$$; SELECT 1;''
           = [''DO $$a;b$$;'', '' SELECT 1;''] @ (if TrimSpace [] \<noteq> [] then [TrimSpace []] else [])"
    by blast+
  then have "even (countMarkers (concat (take 1 [''DO $$a;b$$;'', '' SELECT 1;''])))"
    and "split_stmts ''DO $$a;b$$; SELECT 1;'' = [''DO $$a;b$$;'', '' SELECT 1;'']"
    using c by simp_all
  with a b show ?thesis by blast
qed

text \<open>
  C6. Take statements \<open>[Ok1, Fail, ...]\<close> where the driver call of \<open>Ok1\<close> (a query or an
  exec, as \<open>Ok1\<close> is classified) succeeds, and the driver call of \<open>Fail\<close>, made in the
  history \<open>Ok1\<close> leaves, returns an error. The loop returns one result, that of \<open>Ok1\<close>,
  with the error of \<open>Fail\<close>; no \<open>QueryResult\<close> is made for \<open>Fail\<close>, and the history ends
  with the driver call of \<open>Fail\<close>: whatever follows in the list, \<open>Ok2\<close> included, is never
  sent to the driver.
\<close>

theorem execute_short_circuit:
  assumes "TrimSpace ok1 = s1" and "s1 \<noteq> []" and "TrimSpace fail = s2" and "s2 \<noteq> []"
    and "(selectRe s1 \<and> (\<exists>rows. txQuery drv tr s1 = Inr rows
                            \<and> tr1 = tr @ [EvQuery s1] @ scanReports (Next rows)))
         \<or> (\<not> selectRe s1 \<and> (\<exists>res. txExec drv tr s1 = Inr res) \<and> tr1 = tr @ [EvExec s1])"
    and "(selectRe s2 \<and> txQuery drv tr1 s2 = Inl e) \<or> (\<not> selectRe s2 \<and> txExec drv tr1 s2 = Inl e)"
  shows "\<exists>d1. execLoop drv tr (ok1 # fail # rest) []
                = (([\<lparr>Stmt = s1, Data = d1\<rparr>], Some e),
                   tr1 @ [if selectRe s2 then EvQuery s2 else EvExec s2])"
proof -
  from assms(5) obtain d1 where ok: "runStmt drv tr s1 = (Inr d1, tr1)"
    by (auto simp: runStmt_select runStmt_exec)
  from assms(6) have bad: "runStmt drv tr1 s2
      = (Inl e, tr1 @ [if selectRe s2 then EvQuery s2 else EvExec s2])"
    by (auto simp: runStmt_select_fail runStmt_exec_fail)
  show ?thesis
    using assms(1-4) ok bad by simp
qed

theorem execute_short_circuit_witness:
  "execLoop demoDriver [] [''INSERT INTO t VALUES (1);'', '' SELECT * FROM missing;'', ''DROP TABLE t;''] []
     = (([\<lparr>Stmt = ''INSERT INTO t VALUES (1);'', Data = IntMap [(''lastInsertId'', 7)]\<rparr>],
         Some ''pq: relation missing does not exist''),
        [EvExec ''INSERT INTO t VALUES (1);'', EvQuery ''SELECT * FROM missing;''])"
proof -
  have a: "TrimSpace ''INSERT INTO t VALUES (1);'' = ''INSERT INTO t VALUES (1);''"
    "TrimSpace '' SELECT * FROM missing;'' = ''SELECT * FROM missing;''"
    by code_simp+
  have b: "''INSERT INTO t VALUES (1);'' \<noteq> []" "''SELECT * FROM missing;'' \<noteq> []"
    by simp_all
  have c: "\<not> selectRe ''INSERT INTO t VALUES (1);''" "selectRe ''SELECT * FROM missing;''"
    by code_simp+
  have d: "(selectRe ''INSERT INTO t VALUES (1);'' \<and>
             (\<exists>rows. txQuery demoDriver [] ''INSERT INTO t VALUES (1);'' = Inr rows
                \<and> [EvExec ''INSERT INTO t VALUES (1);'']
                     = [] @ [EvQuery ''INSERT INTO t VALUES (1);''] @ scanReports (Next rows)))
           \<or> (\<not> selectRe ''INSERT INTO t VALUES (1);''
               \<and> (\<exists>res. txExec demoDriver [] ''INSERT INTO t VALUES (1);'' = Inr res)
               \<and> [EvExec ''INSERT INTO t VALUES (1);''] = [] @ [EvExec ''INSERT INTO t VALUES (1);''])"
    using c(1) by (simp add: demoDriver_def)
  have e: "(selectRe ''SELECT * FROM missing;''
             \<and> txQuery demoDriver [EvExec ''INSERT INTO t VALUES (1);''] ''SELECT * FROM missing;''
                 = Inl ''pq: relation missing does not exist'')
           \<or> (\<not> selectRe ''SELECT * FROM missing;''
               \<and> txExec demoDriver [EvExec ''INSERT INTO t VALUES (1);''] ''SELECT * FROM missing;''
                   = Inl ''pq: relation missing does not exist'')"
    using c(2) by (simp add: demoDriver_def)
  have f: "runStmt demoDriver [] ''INSERT INTO t VALUES (1);''
             = (Inr (IntMap [(''lastInsertId'', 7)]), [EvExec ''INSERT INTO t VALUES (1);''])"
    using c(1) by (simp add: runStmt_def demoDriver_def)
  from execute_short_circuit [OF a(1) b(1) a(2) b(2) d e, of "[''DROP TABLE t;'']"]
  obtain d1 where loop: "execLoop demoDriver []
       [''INSERT INTO t VALUES (1);'', '' SELECT * FROM missing;'', ''DROP TABLE t;''] []
     = (([\<lparr>Stmt = ''INSERT INTO t VALUES (1);'', Data = d1\<rparr>],
         Some ''pq: relation missing does not exist''),
        [EvExec ''INSERT INTO t VALUES (1);''] @ [EvQuery ''SELECT * FROM missing;''])"
    using c(2) by auto
  have g: "runStmt demoDriver [EvExec ''INSERT INTO t VALUES (1);''] ''SELECT * FROM missing;''
             = (Inl ''pq: relation missing does not exist'',
                [EvExec ''INSERT INTO t VALUES (1);'', EvQuery ''SELECT * FROM missing;''])"
    using c(2) by (simp add: runStmt_def demoDriver_def)
  from loop f g a have "d1 = IntMap [(''lastInsertId'', 7)]"
    by (simp add: Let_def)
  with loop show ?thesis by simp
qed

text \<open>
  C7. For every mutating statement whose execution succeeds, one outcome is recorded:
  the last inserted identifier if that call succeeds, whatever the count; otherwise the
  count of affected rows if that call succeeds; otherwise the string \<open>executed\<close>.
\<close>

theorem mutation_summary_priority:
  assumes "TrimSpace s = stmt" and "stmt \<noteq> []" and "\<not> selectRe stmt"
    and "txExec drv tr stmt = Inr res"
  shows "\<exists>d. execLoop drv tr [s] [] = (([\<lparr>Stmt = stmt, Data = d\<rparr>], None), tr @ [EvExec stmt]) \<and>
           (\<forall>ident. LastInsertId res = Inr ident \<longrightarrow> d = IntMap [(''lastInsertId'', ident)]) \<and>
           (\<forall>e cnt. LastInsertId res = Inl e \<longrightarrow> RowsAffected res = Inr cnt
                      \<longrightarrow> d = IntMap [(''rowsAffected'', cnt)]) \<and>
           (\<forall>e e'. LastInsertId res = Inl e \<longrightarrow> RowsAffected res = Inl e'
                      \<longrightarrow> d = Text ''executed'')"
  using assms by (simp add: runStmt_exec split: sum.splits)

theorem mutation_summary_priority_witness:
  "execLoop demoDriver [] [''INSERT INTO t VALUES (1);''] []
     = (([\<lparr>Stmt = ''INSERT INTO t VALUES (1);'', Data = IntMap [(''lastInsertId'', 7)]\<rparr>], None),
        [EvExec ''INSERT INTO t VALUES (1);''])"
proof -
  have a: "TrimSpace ''INSERT INTO t VALUES (1);'' = ''INSERT INTO t VALUES (1);''"
    by code_simp
  have b: "''INSERT INTO t VALUES (1);'' \<noteq> []"
    by simp
  have c: "\<not> selectRe ''INSERT INTO t VALUES (1);''"
    by code_simp
  have d: "txExec demoDriver [] ''INSERT INTO t VALUES (1);''
             = Inr \<lparr>LastInsertId = Inr 7, RowsAffected = Inr 1\<rparr>"
    by (simp add: demoDriver_def)
  show ?thesis
    using mutation_summary_priority [OF a b c d] by auto
qed

text \<open>
  C8. For every row-producing statement whose query succeeds, whatever errors the scans
  of its rows give: each error is printed, every row delivered is in the row-set, the
  statement yields a \<open>QueryResult\<close> and no failure, and the loop goes on with the
  statements that follow.
\<close>

theorem scan_error_is_soft:
  assumes "TrimSpace s = stmt" and "stmt \<noteq> []" and "selectRe stmt"
    and "txQuery drv tr stmt = Inr rows"
  shows "execLoop drv tr (s # rest) results
           = execLoop drv (tr @ [EvQuery stmt] @ scanReports (Next rows)) rest
               (results @
                [\<lparr>Stmt = stmt,
                  Data = (if Next rows = [] then NoData
                          else RowSet (map (\<lambda>r. mkRow (Columns rows) (slots (Columns rows) (vals r)))
                                           (Next rows)))\<rparr>])"
  using assms by (simp add: runStmt_select)

theorem scan_error_is_soft_witness:
  "execLoop demoDriver [] [''SELECT * FROM t;'', ''UPDATE t SET qty = 0;''] []
     = (([\<lparr>Stmt = ''SELECT * FROM t;'',
           Data = RowSet [[(''id'', Some 1), (''qty'', Some 10)], [(''id'', Some 2), (''qty'', None)]]\<rparr>,
          \<lparr>Stmt = ''UPDATE t SET qty = 0;'', Data = IntMap [(''rowsAffected'', 3)]\<rparr>], None),
        [EvQuery ''SELECT * FROM t;'',
         EvPrintln ''rows scan error: converting NULL to int is unsupported'',
         EvExec ''UPDATE t SET qty = 0;''])"
proof -
  have a: "TrimSpace ''SELECT * FROM t;'' = ''SELECT * FROM t;''"
    "TrimSpace ''UPDATE t SET qty = 0;'' = ''UPDATE t SET qty = 0;''"
    by code_simp+
  have b: "''SELECT * FROM t;'' \<noteq> []"
    by simp
  have c: "selectRe ''SELECT * FROM t;''" "\<not> selectRe ''UPDATE t SET qty = 0;''"
    by code_simp+
  have d: "txQuery demoDriver [] ''SELECT * FROM t;'' = Inr demoRows"
    by (simp add: demoDriver_def)
  have e: "runStmt demoDriver tr ''UPDATE t SET qty = 0;''
             = (Inr (IntMap [(''rowsAffected'', 3)]), tr @ [EvExec ''UPDATE t SET qty = 0;''])" for tr
    using c(2) by (simp add: runStmt_def demoDriver_def)
  show ?thesis
    using scan_error_is_soft [OF a(1) b c(1) d, of "[''UPDATE t SET qty = 0;'']" "[]"] a(2) e
    by (simp add: demoRows_def scanReports_def mkRow_def slots_def Let_def)
qed

text \<open>
  C9. For every run of a market in which the transaction is opened (a script is chosen,
  opening and \<open>Begin\<close> succeed), the history of the run is: open, begin, the events of
  the script, none of which is a commit or a rollback, and then exactly one commit or
  rollback, after which the run ends. It is a commit exactly when the commit flag is set
  and the script did not fail; whether the commit or rollback itself returns an error
  changes nothing of this.
\<close>

theorem transaction_always_ended:
  assumes "lookupSQL marketSQLs (Name m) = Some sqlText"
    and "sqlOpen drv tr m = None" and "dbBegin drv (tr @ [EvOpen m]) = None"
  shows "\<exists>evs e. snd (runMarket drv marshal commitFlag marketSQLs (tableData, tr) m)
                    = tr @ [EvOpen m, EvBegin] @ evs @ [e] \<and>
                 (\<forall>ev \<in> set evs. \<not> txEnd ev) \<and> txEnd e \<and>
                 (e = EvCommit \<longleftrightarrow>
                    commitFlag \<and> snd (fst (executeScript drv (tr @ [EvOpen m, EvBegin]) sqlText)) = None)"
proof -
  obtain results failure tr' where ex:
    "executeScript drv (tr @ [EvOpen m, EvBegin]) sqlText = ((results, failure), tr')"
    by (metis surj_pair)
  obtain evs where evs: "tr' = (tr @ [EvOpen m, EvBegin]) @ evs" "\<forall>ev \<in> set evs. \<not> txEnd ev"
    using execLoop_no_end [of drv "tr @ [EvOpen m, EvBegin]" "split_stmts sqlText" "[]"] ex
    by (auto simp: executeScript_def)
  have "snd (runMarket drv marshal commitFlag marketSQLs (tableData, tr) m)
          = tr' @ [if commitFlag \<and> failure = None then EvCommit else EvRollback]"
    using assms ex by (cases failure) (auto simp: runMarket_def Let_def split: option.splits)
  then show ?thesis
    using evs ex
    by (intro exI [of _ evs] exI [of _ "if commitFlag \<and> failure = None then EvCommit else EvRollback"])
       (auto simp: txEnd_def)
qed

theorem transaction_always_ended_witness:
  "\<exists>evs e. snd (runMarket demoDriver demoMarshal True
                  [''ALL'' \<mapsto> ''INSERT INTO t VALUES (1); SELECT * FROM missing;'']
                  ([], []) demoMarket)
              = [] @ [EvOpen demoMarket, EvBegin] @ evs @ [e] \<and>
            e = EvRollback \<and> EvCommit \<notin> set evs \<and> EvRollback \<notin> set evs"
proof -
  have a: "lookupSQL [''ALL'' \<mapsto> ''INSERT INTO t VALUES (1); SELECT * FROM missing;''] (Name demoMarket)
             = Some ''INSERT INTO t VALUES (1); SELECT * FROM missing;''"
    by (simp add: lookupSQL_def demoMarket_def)
  have b: "sqlOpen demoDriver [] demoMarket = None"
    by (simp add: demoDriver_def demoMarket_def)
  have c: "dbBegin demoDriver ([] @ [EvOpen demoMarket]) = None"
    by (simp add: demoDriver_def)
  have d: "split_stmts ''INSERT INTO t VALUES (1); SELECT * FROM missing;''
             = [''INSERT INTO t VALUES (1);'', '' SELECT * FROM missing;'']"
    by code_simp
  have e: "TrimSpace ''INSERT INTO t VALUES (1);'' = ''INSERT INTO t VALUES (1);''"
    "TrimSpace '' SELECT * FROM missing;'' = ''SELECT * FROM missing;''"
    by code_simp+
  have f: "\<not> selectRe ''INSERT INTO t VALUES (1);''" "selectRe ''SELECT * FROM missing;''"
    by code_simp+
  have g: "snd (fst (executeScript demoDriver ([] @ [EvOpen demoMarket, EvBegin])
                 ''INSERT INTO t VALUES (1); SELECT * FROM missing;''))
             = Some ''pq: relation missing does not exist''"
    using d e f by (simp add: executeScript_def runStmt_def demoDriver_def Let_def)
  from transaction_always_ended [OF a b c, of demoMarshal True "[]"] g
  show ?thesis
    by (auto simp: txEnd_def)
qed

text \<open>
  C10. A statement is classified as row-producing exactly when its text is: characters
  of the class \<open>\s\<close>, then \<open>SELECT\<close> in any case, then anything at all. Nothing is asked
  of the character after the keyword, so a statement that begins with \<open>selector\<close> is
  row-producing. A statement so classified is sent to the driver as a query, and only
  so: the history of the statement is one \<open>Query\<close> call and printed lines.
\<close>

theorem select_prefix_classification:
  "(selectRe stmt \<longleftrightarrow>
      (\<exists>ws kw rest. stmt = ws @ kw @ rest \<and> (\<forall>c \<in> set ws. reSpace c) \<and> foldsToSELECT kw)) \<and>
   (selectRe stmt \<longrightarrow>
      (\<exists>out. snd (runStmt drv tr stmt) = tr @ EvQuery stmt # out \<and> (\<forall>ev \<in> set out. printed ev)))"
proof (intro conjI iffI impI)
  assume "selectRe stmt"
  then show "\<exists>ws kw rest. stmt = ws @ kw @ rest \<and> (\<forall>c \<in> set ws. reSpace c) \<and> foldsToSELECT kw"
    by (rule selectRe_elim)
next
  assume "\<exists>ws kw rest. stmt = ws @ kw @ rest \<and> (\<forall>c \<in> set ws. reSpace c) \<and> foldsToSELECT kw"
  then obtain ws kw rest where "stmt = ws @ kw @ rest" and "\<forall>c \<in> set ws. reSpace c"
    and "foldsToSELECT kw"
    by (elim exE conjE)
  then show "selectRe stmt"
    using selectRe_intro [of ws kw rest] by simp
next
  assume "selectRe stmt"
  then show "\<exists>out. snd (runStmt drv tr stmt) = tr @ EvQuery stmt # out \<and> (\<forall>ev \<in> set out. printed ev)"
    using runStmt_trace [of drv tr stmt] by simp
qed

theorem select_prefix_classification_witness:
  "selectRe ''selector_id = 1'' \<and>
   snd (runStmt demoDriver [] ''selector_id = 1'')
     = [EvQuery ''selector_id = 1'',
        EvPrintln ''rows scan error: converting NULL to int is unsupported'']"
proof -
  have a: "\<forall>c \<in> set []. reSpace c"
    by simp
  have b: "foldsToSELECT ''select''"
    by code_simp
  have c: "''selector_id = 1'' = [] @ ''select'' @ ''or_id = 1''"
    by simp
  have ex: "\<exists>ws kw rest. ''selector_id = 1'' = ws @ kw @ rest \<and> (\<forall>c \<in> set ws. reSpace c)
              \<and> foldsToSELECT kw"
    using a b c by (intro exI [of _ "[]"] exI [of _ "''select''"] exI [of _ "''or_id = 1''"] conjI)
  have "selectRe ''selector_id = 1'' \<longleftrightarrow>
      (\<exists>ws kw rest. ''selector_id = 1'' = ws @ kw @ rest \<and> (\<forall>c \<in> set ws. reSpace c)
          \<and> foldsToSELECT kw)"
    using select_prefix_classification [of "''selector_id = 1''" demoDriver "[]"]
    by (rule conjunct1)
  then have d: "selectRe ''selector_id = 1''"
    using ex by (rule iffD2)
  then have "snd (runStmt demoDriver [] ''selector_id = 1'')
     = [EvQuery ''selector_id = 1'',
        EvPrintln ''rows scan error: converting NULL to int is unsupported'']"
    by (simp add: runStmt_def demoDriver_def demoRows_def Let_def)
  with d show ?thesis
    by (rule conjI)
qed

end
